theory Spec2Isabelle
  imports Main "HOL-Library.Word"
begin

section \<open>The Anzen runtime: reference-counted objects\<close>

text \<open>
  The C source is \<^verbatim>\<open>Sources/Runtime/runtime.cc\<close> with its header
  \<^verbatim>\<open>Sources/Runtime/include/runtime.h\<close>: a record of three pointers and the three
  functions \<^verbatim>\<open>azn_gc_object_init\<close>, \<^verbatim>\<open>azn_gc_object_retain\<close> and
  \<^verbatim>\<open>azn_gc_object_release\<close>. All three work through pointers, so the embedding is a
  state with an explicit store; every dereference that C leaves undefined is a fault
  of the model.
\<close>

subsection \<open>Pointers, records and the store\<close>

text \<open>An address; \<open>0\<close> is the null pointer.\<close>

type_synonym addr = nat

text \<open>
  A destructor is a function pointer \<^verbatim>\<open>void (*)(void*)\<close>. Its body is the caller's
  code; the model knows it by its code address only. \<open>None\<close> is \<^verbatim>\<open>nullptr\<close>.
\<close>

type_synonym fn = nat

text \<open>
  \<^verbatim>\<open>struct azn_gc_object { void* value; void (*destructor)(void*); size_t* count; }\<close>.
  The field \<^verbatim>\<open>value\<close> is named \<open>value_ptr\<close> here.
\<close>

record azn_gc_object =
  value_ptr :: addr
  destructor :: "fn option"
  count :: addr

text \<open>
  What the program does to the world outside its own store, in the order it does it:
  a block handed out by the allocator, a call of a destructor on a pointer, and a block
  handed back to the allocator.
\<close>

datatype event = Malloc nat addr | Call fn addr | Free addr

text \<open>What C leaves undefined: the run stops there.\<close>

datatype fault = NullDeref | BadDeref | Uninit | BadFree

text \<open>
  The state. The type variable \<open>'c\<close> is the type of a \<^verbatim>\<open>size_t\<close> value; the
  operations take it to be \<open>'w word\<close>, a machine word of any width \<open>'w\<close>, so a
  counter's arithmetic wraps around.
  \<^item> \<open>objs\<close>: the records the caller has room for and \<^verbatim>\<open>azn_gc_object_init\<close> has filled,
    by their address;
  \<^item> \<open>live\<close>: the blocks of the heap that are allocated and not freed, with the size asked
    for;
  \<^item> \<open>mem\<close>: the \<^verbatim>\<open>size_t\<close> values written to memory, by address;
  \<^item> \<open>host\<close>: the answers the host allocator gives to the coming calls of
    \<^verbatim>\<open>malloc\<close>, in order (\<open>0\<close> is a failed allocation);
  \<^item> \<open>trace\<close>: the events so far, oldest first.
\<close>

record 'c state =
  objs :: "addr \<rightharpoonup> azn_gc_object"
  live :: "addr \<rightharpoonup> 'c"
  mem :: "addr \<rightharpoonup> 'c"
  host :: "addr list"
  trace :: "event list"

subsection \<open>The host allocator and the destructors\<close>

text \<open>
  \<^verbatim>\<open>malloc\<close> and \<^verbatim>\<open>free\<close> are the C library's (\<^verbatim>\<open>#include <cstdlib>\<close>), the host
  allocator that the source calls. What the host answers is a parameter of the model,
  the list \<open>host\<close>. \<^verbatim>\<open>malloc(n)\<close> answers with the null pointer or with a block that is
  not one of the live ones, as C has it for every \<open>n\<close>, zero included; which of the two,
  and where the block is, is the host's choice. An answer that names a live block is no
  answer an allocator gives and counts as a failure, and so does a host with no answer
  left.
\<close>

definition malloc :: "'w::len word \<Rightarrow> 'w word state \<Rightarrow> addr \<times> 'w word state" where
  "malloc n s =
     (case host s of
        [] \<Rightarrow> (0, s)
      | p # ps \<Rightarrow>
          if p = 0 \<or> live s p \<noteq> None then (0, s\<lparr>host := ps\<rparr>)
          else (p, s\<lparr>live := (live s)(p \<mapsto> n), host := ps,
                      trace := trace s @ [Malloc (unat n) p]\<rparr>))"

text \<open>
  \<^verbatim>\<open>free(p)\<close>. The null pointer is accepted and nothing happens; a pointer that is not a
  live block (freed before, or never allocated) is undefined in C.
\<close>

definition free :: "addr \<Rightarrow> 'w::len word state \<Rightarrow> fault + 'w word state" where
  "free p s =
     (if p = 0 then Inr s
      else case live s p of
        None \<Rightarrow> Inl BadFree
      | Some n \<Rightarrow> Inr (s\<lparr>live := (live s)(p := None), trace := trace s @ [Free p]\<rparr>))"

text \<open>
  The call of a destructor, \<^verbatim>\<open>object->destructor(object->value)\<close>. The body of the
  destructor is the caller's code, handed to \<^verbatim>\<open>azn_gc_object_init\<close> as a pointer. It is
  taken to be opaque, to complete, and to leave the record, its counter and the allocator
  alone: the call is an event and nothing else.
\<close>

definition call :: "fn \<Rightarrow> addr \<Rightarrow> 'w::len word state \<Rightarrow> 'w word state" where
  "call f p s = s\<lparr>trace := trace s @ [Call f p]\<rparr>"

subsection \<open>Reading and writing through pointers\<close>

text \<open>
  \<^verbatim>\<open>*p\<close> read, for a \<^verbatim>\<open>size_t* p\<close>: \<open>p\<close> has to be a live block that has been written.
  The size of the block is not compared with \<^verbatim>\<open>sizeof(size_t)\<close>; the blocks that
  \<^verbatim>\<open>azn_gc_object_init\<close> makes for counters have that size.
\<close>

definition load :: "addr \<Rightarrow> 'w::len word state \<Rightarrow> fault + 'w word" where
  "load p s =
     (if p = 0 then Inl NullDeref
      else case live s p of
        None \<Rightarrow> Inl BadDeref
      | Some n \<Rightarrow> (case mem s p of None \<Rightarrow> Inl Uninit | Some v \<Rightarrow> Inr v))"

text \<open>\<^verbatim>\<open>*p = v\<close>, for a \<^verbatim>\<open>size_t* p\<close>.\<close>

definition store :: "addr \<Rightarrow> 'w::len word \<Rightarrow> 'w word state \<Rightarrow> fault + 'w word state" where
  "store p v s =
     (if p = 0 then Inl NullDeref
      else case live s p of
        None \<Rightarrow> Inl BadDeref
      | Some n \<Rightarrow> Inr (s\<lparr>mem := (mem s)(p \<mapsto> v)\<rparr>))"

text \<open>\<^verbatim>\<open>object->...\<close> read: the record behind an \<^verbatim>\<open>azn_gc_object_t*\<close>.\<close>

definition deref :: "addr \<Rightarrow> 'w::len word state \<Rightarrow> fault + azn_gc_object" where
  "deref object s =
     (if object = 0 then Inl NullDeref
      else case objs s object of None \<Rightarrow> Inl Uninit | Some r \<Rightarrow> Inr r)"

subsection \<open>The three operations\<close>

text \<open>
  \<^verbatim>\<open>
  void azn_gc_object_init(azn_gc_object_t* object, size_t size, void (*destructor)(void*)) {
      object->value = malloc(size);
      object->destructor = destructor;
      object->count = (size_t*)malloc(sizeof(size_t));
      *(object->count) = 1;
  }
  \<close>
  The three fields are written one after the other with no read in between, so the
  model writes the record once, after the second \<^verbatim>\<open>malloc\<close>. \<^verbatim>\<open>sizeof(size_t)\<close>
  is the width in bytes. No result of \<^verbatim>\<open>malloc\<close> is tested, and a null \<open>object\<close>
  is a fault whichever field is written first.
\<close>

definition sizeof_size_t :: "'w::len word" where
  "sizeof_size_t = of_nat (LENGTH('w) div 8)"

definition azn_gc_object_init ::
  "addr \<Rightarrow> 'w::len word \<Rightarrow> fn option \<Rightarrow> 'w word state \<Rightarrow> fault + 'w word state" where
  "azn_gc_object_init object sz destr s =
     (if object = 0 then Inl NullDeref
      else
        let (p, s1) = malloc sz s;
            (c, s2) = malloc sizeof_size_t s1;
            s3 = s2\<lparr>objs := (objs s2)(object \<mapsto>
                   \<lparr>value_ptr = p, destructor = destr, count = c\<rparr>)\<rparr>
        in store c 1 s3)"

text \<open>
  \<^verbatim>\<open>
  void azn_gc_object_retain(azn_gc_object_t* object) {
      *(object->count) += 1;
  }
  \<close>
\<close>

definition azn_gc_object_retain :: "addr \<Rightarrow> 'w::len word state \<Rightarrow> fault + 'w word state" where
  "azn_gc_object_retain object s =
     (case deref object s of
        Inl e \<Rightarrow> Inl e
      | Inr r \<Rightarrow>
          (case load (count r) s of
             Inl e \<Rightarrow> Inl e
           | Inr v \<Rightarrow> store (count r) (v + 1) s))"

text \<open>
  \<^verbatim>\<open>
  void azn_gc_object_release(azn_gc_object_t* object) {
      *(object->count) -= 1;
      if (*(object->count) == 0) {
          if (object->destructor != nullptr) {
              object->destructor(object->value);
          }
          free(object->value);
      }
  }
  \<close>
\<close>

definition azn_gc_object_release :: "addr \<Rightarrow> 'w::len word state \<Rightarrow> fault + 'w word state" where
  "azn_gc_object_release object s =
     (case deref object s of
        Inl e \<Rightarrow> Inl e
      | Inr r \<Rightarrow>
          (case load (count r) s of
             Inl e \<Rightarrow> Inl e
           | Inr v \<Rightarrow>
               (case store (count r) (v - 1) s of
                  Inl e \<Rightarrow> Inl e
                | Inr s1 \<Rightarrow>
                    (case load (count r) s1 of
                       Inl e \<Rightarrow> Inl e
                     | Inr v1 \<Rightarrow>
                         if v1 = 0 then
                           free (value_ptr r)
                             (case destructor r of
                                None \<Rightarrow> s1
                              | Some f \<Rightarrow> call f (value_ptr r) s1)
                         else Inr s1))))"

subsection \<open>Sequences of operations on one record\<close>

datatype op = Retain | Release

fun run :: "addr \<Rightarrow> op list \<Rightarrow> 'w::len word state \<Rightarrow> fault + 'w word state" where
  "run object [] s = Inr s"
| "run object (Retain # ops) s =
     (case azn_gc_object_retain object s of
        Inl e \<Rightarrow> Inl e
      | Inr s' \<Rightarrow> run object ops s')"
| "run object (Release # ops) s =
     (case azn_gc_object_release object s of
        Inl e \<Rightarrow> Inl e
      | Inr s' \<Rightarrow> run object ops s')"

text \<open>\<^verbatim>\<open>azn_gc_object_init\<close> and then a sequence of operations, all on one record.\<close>

definition scenario ::
  "addr \<Rightarrow> 'w::len word \<Rightarrow> fn option \<Rightarrow> op list \<Rightarrow> 'w word state \<Rightarrow> fault + 'w word state" where
  "scenario object sz destr ops s =
     (case azn_gc_object_init object sz destr s of
        Inl e \<Rightarrow> Inl e
      | Inr s1 \<Rightarrow> run object ops s1)"

text \<open>A state with nothing in it, before a host whose coming answers are \<open>hs\<close>.\<close>

definition boot :: "addr list \<Rightarrow> 'w::len word state" where
  "boot hs = \<lparr>objs = Map.empty, live = Map.empty, mem = Map.empty, host = hs, trace = []\<rparr>"

subsection \<open>Vocabulary of the properties\<close>

text \<open>How often a destructor has been called, in a trace.\<close>

fun is_call :: "event \<Rightarrow> bool" where
  "is_call (Call f p) = True"
| "is_call e = False"

definition cleanups :: "event list \<Rightarrow> nat" where
  "cleanups t = length (filter is_call t)"

text \<open>
  A record whose counter can be read and written: \<open>object\<close> points to the record \<open>r\<close>,
  and the counter of \<open>r\<close> is a live block that holds \<open>v\<close>.
\<close>

definition counted :: "addr \<Rightarrow> azn_gc_object \<Rightarrow> 'w::len word \<Rightarrow> 'w word state \<Rightarrow> bool" where
  "counted object r v s \<longleftrightarrow>
     object \<noteq> 0 \<and> objs s object = Some r \<and> count r \<noteq> 0 \<and>
     live s (count r) \<noteq> None \<and> mem s (count r) = Some v"

text \<open>
  A record in use: its counter can be read and written and is not the payload's block,
  and the payload is the null pointer or a live block. This is what
  \<^verbatim>\<open>azn_gc_object_init\<close> leaves behind, with \<open>v = 1\<close>.
\<close>

definition owned :: "addr \<Rightarrow> azn_gc_object \<Rightarrow> 'w::len word \<Rightarrow> 'w word state \<Rightarrow> bool" where
  "owned object r v s \<longleftrightarrow>
     counted object r v s \<and> value_ptr r \<noteq> count r \<and>
     (value_ptr r = 0 \<or> live s (value_ptr r) \<noteq> None)"

text \<open>The events of finalization: the destructor, if there is one, then the payload's block.\<close>

definition finalization :: "azn_gc_object \<Rightarrow> event list" where
  "finalization r =
     (case destructor r of None \<Rightarrow> [] | Some f \<Rightarrow> [Call f (value_ptr r)]) @
     (if value_ptr r = 0 then [] else [Free (value_ptr r)])"





section \<open>Single steps\<close>

lemma retain_counted:
  assumes "counted object r v s"
  shows "azn_gc_object_retain object s = Inr (s\<lparr>mem := (mem s)(count r \<mapsto> v + 1)\<rparr>)"
  using assms
  by (auto simp: counted_def azn_gc_object_retain_def deref_def load_def store_def)

lemma release_counted_keep:
  assumes "counted object r v s" and "v \<noteq> 1"
  shows "azn_gc_object_release object s = Inr (s\<lparr>mem := (mem s)(count r \<mapsto> v - 1)\<rparr>)"
  using assms
  by (auto simp: counted_def azn_gc_object_release_def deref_def load_def store_def)

lemma release_owned_last:
  assumes "owned object r 1 s"
  shows "azn_gc_object_release object s =
           Inr (s\<lparr>mem := (mem s)(count r \<mapsto> 0),
                  live := (if value_ptr r = 0 then live s
                           else (live s)(value_ptr r := None)),
                  trace := trace s @ finalization r\<rparr>)"
  using assms
  by (auto simp: owned_def counted_def azn_gc_object_release_def deref_def load_def store_def
      free_def call_def finalization_def split: option.splits)

lemma counted_mem_upd:
  "counted object r v s \<Longrightarrow> counted object r v' (s\<lparr>mem := (mem s)(count r \<mapsto> v')\<rparr>)"
  by (simp add: counted_def)


lemma counted_mem_same:
  "counted object r v s \<Longrightarrow> s\<lparr>mem := (mem s)(count r \<mapsto> v)\<rparr> = s"
  by (simp add: counted_def fun_upd_idem)

lemma malloc_result:
  assumes "malloc n s = (p, s')"
  shows "objs s' = objs s \<and> mem s' = mem s \<and>
         (if p = 0 then live s' = live s \<and> trace s' = trace s
          else live s p = None \<and> live s' = (live s)(p \<mapsto> n) \<and>
               trace s' = trace s @ [Malloc (unat n) p])"
  using assms by (auto simp: malloc_def split: list.splits if_splits)

lemma store_Inr:
  "store c v s = Inr s' \<longleftrightarrow> c \<noteq> 0 \<and> live s c \<noteq> None \<and> s' = s\<lparr>mem := (mem s)(c \<mapsto> v)\<rparr>"
  by (auto simp: store_def split: option.splits)

lemma init_Inr:
  assumes "azn_gc_object_init object sz destr s = Inr s1"
  shows "\<exists>r. owned object r 1 s1 \<and> destructor r = destr \<and>
             (\<exists>es. trace s1 = trace s @ es \<and> Free (count r) \<notin> set es \<and> cleanups es = 0)"
proof -
  obtain p s' where m1: "malloc sz s = (p, s')" by (cases "malloc sz s")
  obtain c s'' where m2: "malloc (sizeof_size_t :: 'a word) s' = (c, s'')"
    by (cases "malloc (sizeof_size_t :: 'a word) s'")
  let ?r = "\<lparr>value_ptr = p, destructor = destr, count = c\<rparr>"
  let ?s3 = "s''\<lparr>objs := (objs s'')(object \<mapsto> ?r)\<rparr>"
  from assms m1 m2 have o: "object \<noteq> 0" and st: "store c 1 ?s3 = Inr s1"
    by (auto simp: azn_gc_object_init_def split: if_splits)
  from st have c: "c \<noteq> 0" "live s'' c \<noteq> None" and s1: "s1 = ?s3\<lparr>mem := (mem ?s3)(c \<mapsto> 1)\<rparr>"
    by (simp_all add: store_Inr)
  note r1 = malloc_result [OF m1] and r2 = malloc_result [OF m2]
  from c r2 have fresh: "live s' c = None" and l2: "live s'' = (live s')(c \<mapsto> (sizeof_size_t :: 'a word))"
    and t2: "trace s'' = trace s' @ [Malloc (unat (sizeof_size_t :: 'a word)) c]"
    by simp_all
  have pc: "p \<noteq> c"
  proof
    assume "p = c"
    with c r1 fresh show False by (simp split: if_splits)
  qed
  have pl: "p = 0 \<or> live s'' p \<noteq> None"
    using r1 l2 by (auto split: if_splits)
  have "owned object ?r 1 s1"
    using o c pc pl by (simp add: owned_def counted_def s1)
  moreover have "\<exists>es. trace s1 = trace s @ es \<and> Free c \<notin> set es \<and> cleanups es = 0"
    using r1 t2 by (cases "p = 0") (simp_all add: s1 cleanups_def)
  ultimately show ?thesis
    by (intro exI [of _ ?r]) simp
qed

lemma init_returns:
  assumes "object \<noteq> 0" and "host s = a # c # rest" and "c \<noteq> 0" and "live s c = None"
    and "c \<noteq> a"
  shows "\<exists>s1. azn_gc_object_init object sz destr s = Inr s1"
  using assms
  by (simp add: azn_gc_object_init_def malloc_def store_def)

section \<open>Sequences\<close>

lemma run_append:
  "run object (xs @ ys) s =
     (case run object xs s of Inl e \<Rightarrow> Inl e | Inr s' \<Rightarrow> run object ys s')"
proof (induction xs arbitrary: s)
  case Nil
  show ?case by simp
next
  case (Cons x xs)
  show ?case
    by (cases x) (simp_all add: Cons.IH split: sum.splits)
qed

lemma mem_upd_twice:
  "s\<lparr>mem := (mem s)(c \<mapsto> a)\<rparr>\<lparr>mem := (mem (s\<lparr>mem := (mem s)(c \<mapsto> a)\<rparr>))(c \<mapsto> b)\<rparr> =
   s\<lparr>mem := (mem s)(c \<mapsto> b)\<rparr>"
  by simp

lemma run_retains:
  assumes "counted object r v s"
  shows "run object (replicate n Retain) s = Inr (s\<lparr>mem := (mem s)(count r \<mapsto> v + of_nat n)\<rparr>)"
  using assms
proof (induction n arbitrary: v s)
  case 0
  have "v + of_nat 0 = v" by simp
  then show ?case
    by (simp only: replicate_0 run.simps counted_mem_same [OF "0.prems"(1)])
next
  case (Suc n)
  let ?s = "s\<lparr>mem := (mem s)(count r \<mapsto> v + 1)\<rparr>"
  have c: "counted object r (v + 1) ?s"
    using Suc.prems by (rule counted_mem_upd)
  have e: "v + 1 + of_nat n = v + of_nat (Suc n)" by simp
  have "run object (replicate (Suc n) Retain) s = run object (replicate n Retain) ?s"
    by (simp add: retain_counted [OF Suc.prems])
  also have "\<dots> = Inr (?s\<lparr>mem := (mem ?s)(count r \<mapsto> v + 1 + of_nat n)\<rparr>)"
    by (rule Suc.IH [OF c])
  also have "\<dots> = Inr (s\<lparr>mem := (mem s)(count r \<mapsto> v + of_nat (Suc n))\<rparr>)"
    by (simp only: mem_upd_twice e)
  finally show ?case .
qed

lemma run_releases:
  assumes "counted object r v s" and "\<forall>j<n. v - of_nat j \<noteq> 1"
  shows "run object (replicate n Release) s = Inr (s\<lparr>mem := (mem s)(count r \<mapsto> v - of_nat n)\<rparr>)"
  using assms
proof (induction n arbitrary: v s)
  case 0
  have "v - of_nat 0 = v" by simp
  then show ?case
    by (simp only: replicate_0 run.simps counted_mem_same [OF "0.prems"(1)])
next
  case (Suc n)
  let ?s = "s\<lparr>mem := (mem s)(count r \<mapsto> v - 1)\<rparr>"
  from Suc.prems(2) have v1: "v \<noteq> 1" by force
  have c: "counted object r (v - 1) ?s"
    using Suc.prems(1) by (rule counted_mem_upd)
  have e: "v - 1 - of_nat j = v - of_nat (Suc j)" for j by simp
  have later: "\<forall>j<n. v - 1 - of_nat j \<noteq> 1"
  proof (intro allI impI)
    fix j assume "j < n"
    then have "v - of_nat (Suc j) \<noteq> 1" using Suc.prems(2) by blast
    then show "v - 1 - of_nat j \<noteq> 1" unfolding e .
  qed
  have "run object (replicate (Suc n) Release) s = run object (replicate n Release) ?s"
    by (simp add: release_counted_keep [OF Suc.prems(1) v1])
  also have "\<dots> = Inr (?s\<lparr>mem := (mem ?s)(count r \<mapsto> v - 1 - of_nat n)\<rparr>)"
    by (rule Suc.IH [OF c later])
  also have "\<dots> = Inr (s\<lparr>mem := (mem s)(count r \<mapsto> v - of_nat (Suc n))\<rparr>)"
    by (simp only: mem_upd_twice e)
  finally show ?case .
qed

lemma of_nat_word_eq_0_iff:
  "(of_nat n :: 'w::len word) = 0 \<longleftrightarrow> 2 ^ LENGTH('w) dvd n"
  by (simp add: word_of_nat_eq_0_iff)

lemma of_nat_neq_1:
  assumes "2 \<le> n" and "n \<le> 2 ^ LENGTH('w)"
  shows "(of_nat n :: 'w::len word) \<noteq> 1"
proof
  assume "(of_nat n :: 'w word) = 1"
  then have "(of_nat (n - 1) :: 'w word) = 0"
    using assms(1) by (simp add: of_nat_diff)
  then have "2 ^ LENGTH('w) dvd n - 1"
    by (simp add: of_nat_word_eq_0_iff)
  then have "2 ^ LENGTH('w) \<le> n - 1"
    using assms(1) by (auto dest: dvd_imp_le)
  with assms show False by simp
qed



lemma replicate_Suc_snoc: "replicate (Suc n) x = replicate n x @ [x]"
  by (simp add: replicate_append_same)

lemma run_snoc:
  "run object (xs @ [Release]) s =
     (case run object xs s of Inl e \<Rightarrow> Inl e | Inr s' \<Rightarrow> azn_gc_object_release object s')"
  by (simp add: run_append split: sum.splits)

lemma run_retains_releases:
  fixes s :: "'w::len word state"
  assumes "owned object r 1 s" and "k < 2 ^ LENGTH('w)" and "j \<le> k"
  shows "run object (replicate k Retain @ replicate j Release) s =
           Inr (s\<lparr>mem := (mem s)(count r \<mapsto> of_nat (Suc (k - j)))\<rparr>)"
proof -
  let ?a = "s\<lparr>mem := (mem s)(count r \<mapsto> 1 + of_nat k)\<rparr>"
  from assms(1) have c: "counted object r 1 s" by (simp add: owned_def)
  then have ca: "counted object r (1 + of_nat k) ?a" by (rule counted_mem_upd)
  have e: "(1 + of_nat k :: 'w word) - of_nat i = of_nat (Suc (k - i))" if "i \<le> k" for i
    using that by (simp add: of_nat_diff)
  have keep: "\<forall>i<j. (1 + of_nat k :: 'w word) - of_nat i \<noteq> 1"
  proof (intro allI impI)
    fix i assume "i < j"
    with assms have "i \<le> k" "2 \<le> Suc (k - i)" "Suc (k - i) \<le> 2 ^ LENGTH('w)" by simp_all
    then show "(1 + of_nat k :: 'w word) - of_nat i \<noteq> 1"
      by (simp only: e of_nat_neq_1 not_False_eq_True)
  qed
  have "run object (replicate k Retain @ replicate j Release) s = run object (replicate j Release) ?a"
    by (simp add: run_append run_retains [OF c])
  also have "\<dots> = Inr (?a\<lparr>mem := (mem ?a)(count r \<mapsto> 1 + of_nat k - of_nat j)\<rparr>)"
    by (rule run_releases [OF ca keep])
  also have "\<dots> = Inr (s\<lparr>mem := (mem s)(count r \<mapsto> of_nat (Suc (k - j)))\<rparr>)"
    by (simp only: mem_upd_twice e [OF assms(3)])
  finally show ?thesis .
qed

lemma run_retains_releases_last:
  fixes s :: "'w::len word state"
  assumes "owned object r 1 s" and "k < 2 ^ LENGTH('w)"
  shows "run object (replicate k Retain @ replicate (Suc k) Release) s =
           Inr (s\<lparr>mem := (mem s)(count r \<mapsto> 0),
                  live := (if value_ptr r = 0 then live s
                           else (live s)(value_ptr r := None)),
                  trace := trace s @ finalization r\<rparr>)"
proof -
  let ?b = "s\<lparr>mem := (mem s)(count r \<mapsto> 1)\<rparr>"
  have b: "?b = s" using assms(1) counted_mem_same [of object r 1 s] by (simp add: owned_def)
  have "run object (replicate k Retain @ replicate k Release) s = Inr s"
    using run_retains_releases [OF assms, of k] by (simp add: b)
  moreover have "replicate k Retain @ replicate (Suc k) Release =
      (replicate k Retain @ replicate k Release) @ [Release]"
    by (simp add: replicate_append_same)
  ultimately have "run object (replicate k Retain @ replicate (Suc k) Release) s =
      azn_gc_object_release object s"
    by (simp only: run_snoc sum.case)
  then show ?thesis by (simp only: release_owned_last [OF assms(1)])
qed


section \<open>What a step that returns has done\<close>

lemma retain_Inr:
  assumes "azn_gc_object_retain object t = Inr t'"
  shows "\<exists>r v. counted object r v t \<and> t' = t\<lparr>mem := (mem t)(count r \<mapsto> v + 1)\<rparr>"
  using assms
  by (auto simp: azn_gc_object_retain_def deref_def load_def store_def counted_def
      split: if_splits option.splits sum.splits)

lemma release_Inr:
  assumes "azn_gc_object_release object t = Inr t'"
  shows "\<exists>r v. counted object r v t \<and>
           (if v = 1 then
              (value_ptr r = 0 \<or> live t (value_ptr r) \<noteq> None) \<and>
              t' = t\<lparr>mem := (mem t)(count r \<mapsto> 0),
                     live := (if value_ptr r = 0 then live t
                              else (live t)(value_ptr r := None)),
                     trace := trace t @ finalization r\<rparr>
            else t' = t\<lparr>mem := (mem t)(count r \<mapsto> v - 1)\<rparr>)"
proof -
  from assms obtain r where r: "object \<noteq> 0" "objs t object = Some r"
    by (auto simp: azn_gc_object_release_def deref_def split: if_splits option.splits)
  with assms obtain v where v: "count r \<noteq> 0" "live t (count r) \<noteq> None" "mem t (count r) = Some v"
    by (auto simp: azn_gc_object_release_def deref_def load_def
        split: if_splits option.splits)
  from r v have c: "counted object r v t" by (simp add: counted_def)
  show ?thesis
  proof (cases "v = 1")
    case False
    with release_counted_keep [OF c] assms have "t' = t\<lparr>mem := (mem t)(count r \<mapsto> v - 1)\<rparr>"
      by simp
    with c False show ?thesis
      by (intro exI [of _ r] exI [of _ v]) simp
  next
    case True
    with assms r v have "value_ptr r = 0 \<or> live t (value_ptr r) \<noteq> None"
      by (auto simp: azn_gc_object_release_def deref_def load_def store_def free_def call_def
          split: if_splits option.splits)
    moreover from this True assms r v have
      "t' = t\<lparr>mem := (mem t)(count r \<mapsto> 0),
              live := (if value_ptr r = 0 then live t else (live t)(value_ptr r := None)),
              trace := trace t @ finalization r\<rparr>"
      by (auto simp: azn_gc_object_release_def deref_def load_def store_def free_def call_def
          finalization_def split: if_splits option.splits)
    ultimately show ?thesis using c True
      by (intro exI [of _ r] exI [of _ v]) simp
  qed
qed



lemma unat_max: "unat (- 1 :: 'w::len word) = 2 ^ LENGTH('w) - 1"
  by (simp add: unsigned_minus_1_eq_mask mask_eq_exp_minus_1)

lemmas eval_defs = azn_gc_object_init_def azn_gc_object_retain_def azn_gc_object_release_def
  malloc_def free_def call_def load_def store_def deref_def boot_def sizeof_size_t_def
  scenario_def


lemma run_keeps_counter:
  assumes "run object ops s = Inr s'" and "objs s object = Some r"
    and "value_ptr r \<noteq> count r"
  shows "objs s' object = Some r \<and> live s' (count r) = live s (count r) \<and>
         (\<exists>es. trace s' = trace s @ es \<and> Free (count r) \<notin> set es)"
  using assms
proof (induction ops arbitrary: s)
  case Nil
  then show ?case by simp
next
  case (Cons x ops)
  show ?case
  proof (cases x)
    case Retain
    with Cons.prems(1) obtain t where t: "azn_gc_object_retain object s = Inr t"
      and rest: "run object ops t = Inr s'"
      by (auto split: sum.splits)
    from retain_Inr [OF t] Cons.prems(2) have
      same: "objs t = objs s" "live t = live s" "trace t = trace s"
      by (auto simp: counted_def)
    with Cons.IH [OF rest _ Cons.prems(3)] Cons.prems(2) show ?thesis by simp
  next
    case Release
    with Cons.prems(1) obtain t where t: "azn_gc_object_release object s = Inr t"
      and rest: "run object ops t = Inr s'"
      by (auto split: sum.splits)
    from release_Inr [OF t] Cons.prems(2) obtain v where
      "counted object r v s" and
      "if v = 1 then
         t = s\<lparr>mem := (mem s)(count r \<mapsto> 0),
               live := (if value_ptr r = 0 then live s else (live s)(value_ptr r := None)),
               trace := trace s @ finalization r\<rparr>
       else t = s\<lparr>mem := (mem s)(count r \<mapsto> v - 1)\<rparr>"
      by (auto simp: counted_def split: if_splits)
    with Cons.prems(3) have same: "objs t = objs s" "live t (count r) = live s (count r)"
      and tr: "\<exists>es. trace t = trace s @ es \<and> Free (count r) \<notin> set es"
      by (auto simp: finalization_def split: if_splits option.splits)
    from Cons.IH [OF rest _ Cons.prems(3)] Cons.prems(2) same have
      "objs s' object = Some r" "live s' (count r) = live t (count r)"
      "\<exists>es. trace s' = trace t @ es \<and> Free (count r) \<notin> set es"
      by simp_all
    with same tr show ?thesis by auto
  qed
qed

lemma release_wrap_keep:
  fixes j :: nat
  assumes "j < 2 ^ LENGTH('w) - 2"
  shows "(- 1 :: 'w::len word) - of_nat j \<noteq> 1"
proof
  assume "(- 1 :: 'w word) - of_nat j = 1"
  then have "(of_nat (j + 2) :: 'w word) = 0" by (simp add: algebra_simps)
  then have "2 ^ LENGTH('w) dvd j + 2" by (simp only: of_nat_word_eq_0_iff)
  then have "2 ^ LENGTH('w) \<le> j + 2" by (rule dvd_imp_le) simp
  with assms show False by simp
qed

lemma two_pow_64: "(of_nat (2 ^ 64) :: 64 word) = 0"
  by simp





section \<open>The claims\<close>

text \<open>
  Throughout, \<open>LENGTH('w)\<close> is the width of \<^verbatim>\<open>size_t\<close> in bits, and the concrete runs
  are on a 64-bit \<^verbatim>\<open>size_t\<close>, from an empty state.
\<close>

subsection \<open>C1: retain and release in balance\<close>

text \<open>
  C1, with the bound that the counter forces. After \<^verbatim>\<open>init\<close> with a destructor \<open>f\<close>, then
  \<open>k\<close> retains, where \<open>k\<close> is less than \<open>2 ^ LENGTH('w)\<close>: none of the first \<open>k\<close> releases adds
  an event, and the release after them, release \<open>k + 1\<close>, returns and adds the call of \<open>f\<close>
  on the payload, followed by the payload's block going back to the allocator. So the
  destructor is called exactly once, in the last release.
\<close>

theorem retain_release_balance:
  fixes s :: "'w::len word state"
  assumes "azn_gc_object_init object sz (Some f) s = Inr s1" and "k < 2 ^ LENGTH('w)"
  shows "\<exists>r. objs s1 object = Some r \<and> destructor r = Some f \<and>
           (\<forall>j\<le>k. \<exists>s2. run object (replicate k Retain @ replicate j Release) s1 = Inr s2 \<and>
               trace s2 = trace s1) \<and>
           (\<exists>s3. run object (replicate k Retain @ replicate (Suc k) Release) s1 = Inr s3 \<and>
               trace s3 = trace s1 @ Call f (value_ptr r) #
                 (if value_ptr r = 0 then [] else [Free (value_ptr r)]) \<and>
               cleanups (trace s3) = cleanups (trace s1) + 1)"
proof -
  from init_Inr [OF assms(1)] obtain r where o: "owned object r 1 s1"
    and d: "destructor r = Some f"
    by blast
  from o have r: "objs s1 object = Some r" by (simp add: owned_def counted_def)
  have early: "\<exists>s2. run object (replicate k Retain @ replicate j Release) s1 = Inr s2 \<and>
      trace s2 = trace s1" if "j \<le> k" for j
    using run_retains_releases [OF o assms(2) that] by simp
  have last: "\<exists>s3. run object (replicate k Retain @ replicate (Suc k) Release) s1 = Inr s3 \<and>
      trace s3 = trace s1 @ Call f (value_ptr r) #
        (if value_ptr r = 0 then [] else [Free (value_ptr r)]) \<and>
      cleanups (trace s3) = cleanups (trace s1) + 1"
    using run_retains_releases_last [OF o assms(2)] d
    by (simp add: finalization_def cleanups_def)
  from r d early last show ?thesis by blast
qed

text \<open>
  C1 at \<open>k = 1\<close>: \<^verbatim>\<open>init(obj, 8, destructor 7)\<close>, retain, release, release. The destructor
  runs in the second release.
\<close>

theorem retain_release_balance_witness:
  "\<exists>s1. azn_gc_object_init 1 8 (Some 7) (boot [16, 32] :: 64 word state) = Inr s1 \<and>
     (1 :: nat) < 2 ^ LENGTH(64) \<and>
     (\<exists>s2. run 1 [Retain] s1 = Inr s2 \<and> trace s2 = [Malloc 8 16, Malloc 8 32]) \<and>
     (\<exists>s2. run 1 [Retain, Release] s1 = Inr s2 \<and> trace s2 = [Malloc 8 16, Malloc 8 32]) \<and>
     (\<exists>s3. run 1 [Retain, Release, Release] s1 = Inr s3 \<and>
        trace s3 = [Malloc 8 16, Malloc 8 32, Call 7 16, Free 16])"
proof -
  let ?s1 = "\<lparr>objs = [1 \<mapsto> \<lparr>value_ptr = 16, destructor = Some 7, count = 32\<rparr>],
     live = [16 \<mapsto> 8, 32 \<mapsto> 8], mem = [32 \<mapsto> 1 :: 64 word], host = [],
     trace = [Malloc 8 16, Malloc 8 32]\<rparr>"
  have i: "azn_gc_object_init 1 8 (Some 7) (boot [16, 32] :: 64 word state) = Inr ?s1"
    by (simp add: azn_gc_object_init_def malloc_def store_def boot_def sizeof_size_t_def)
  have k: "(1 :: nat) < 2 ^ LENGTH(64)" by simp
  from retain_release_balance [OF i k] obtain r where
    r: "objs ?s1 1 = Some r"
    and early: "\<forall>j\<le>1. \<exists>s2. run 1 (replicate 1 Retain @ replicate j Release) ?s1 = Inr s2 \<and>
               trace s2 = trace ?s1"
    and last: "\<exists>s3. run 1 (replicate 1 Retain @ replicate (Suc 1) Release) ?s1 = Inr s3 \<and>
               trace s3 = trace ?s1 @ Call 7 (value_ptr r) #
                 (if value_ptr r = 0 then [] else [Free (value_ptr r)])"
    by blast
  from r have v: "value_ptr r = 16" by auto
  from early [rule_format, of 0] have e0: "\<exists>s2. run 1 [Retain] ?s1 = Inr s2 \<and>
      trace s2 = [Malloc 8 16, Malloc 8 32]"
    by simp
  from early [rule_format, of 1] have e1: "\<exists>s2. run 1 [Retain, Release] ?s1 = Inr s2 \<and>
      trace s2 = [Malloc 8 16, Malloc 8 32]"
    by simp
  from last v have l: "\<exists>s3. run 1 [Retain, Release, Release] ?s1 = Inr s3 \<and>
        trace s3 = [Malloc 8 16, Malloc 8 32, Call 7 16, Free 16]"
    by (simp add: numeral_2_eq_2)
  from i k e0 e1 l show ?thesis by blast
qed

text \<open>
  C1 as it is written, for every \<open>k\<close>, fails at \<open>k = 2 ^ 64\<close>: the retains take the counter
  from \<open>1\<close> round to \<open>1\<close> again, and the first of the \<open>k + 1\<close> releases already calls the
  destructor and frees the payload.
\<close>

theorem retain_overflow_counterexample:
  "map_sum id trace
     (scenario 1 8 (Some 7) (replicate (2 ^ 64) Retain @ [Release])
        (boot [16, 32] :: 64 word state)) =
   Inr [Malloc 8 16, Malloc 8 32, Call 7 16, Free 16]"
proof -
  let ?r = "\<lparr>value_ptr = 16, destructor = Some 7, count = 32\<rparr>"
  let ?s1 = "\<lparr>objs = [1 \<mapsto> ?r], live = [16 \<mapsto> 8, 32 \<mapsto> 8], mem = [32 \<mapsto> 1], host = [],
     trace = [Malloc 8 16, Malloc 8 32]\<rparr> :: 64 word state"
  have i: "azn_gc_object_init 1 8 (Some 7) (boot [16, 32] :: 64 word state) = Inr ?s1"
    by (simp add: azn_gc_object_init_def malloc_def store_def boot_def sizeof_size_t_def)
  have c: "counted 1 ?r 1 ?s1" by (simp add: counted_def)
  have "run 1 (replicate (2 ^ 64) Retain) ?s1 = Inr ?s1"
    unfolding run_retains [OF c] two_pow_64 by simp
  then have "run 1 (replicate (2 ^ 64) Retain @ [Release]) ?s1 = azn_gc_object_release 1 ?s1"
    by (simp only: run_snoc sum.case)
  then show ?thesis
    unfolding scenario_def i sum.case
    by (simp add: azn_gc_object_release_def deref_def load_def store_def free_def call_def)
qed

subsection \<open>C2: the destructor is called at most once\<close>



subsection \<open>C3: one release\<close>

text \<open>
  C3. A release on a record in use whose counter \<open>v\<close> is positive writes \<open>v - 1\<close>, which is
  one less as a number. The events it adds are those of finalization if and only if the
  new counter is \<open>0\<close>, and none otherwise: the call of the destructor on the payload, when
  the record has one, comes first, and the payload's block goes back to the allocator
  after it (the null pointer is no block). No other block is freed.
\<close>

theorem release_step:
  assumes "owned object r v s" and "v \<noteq> 0"
  shows "\<exists>s'. azn_gc_object_release object s = Inr s' \<and>
           mem s' (count r) = Some (v - 1) \<and> unat (v - 1) = unat v - 1 \<and>
           trace s' = trace s @
             (if v - 1 = 0 then
                (case destructor r of None \<Rightarrow> [] | Some f \<Rightarrow> [Call f (value_ptr r)]) @
                (if value_ptr r = 0 then [] else [Free (value_ptr r)])
              else []) \<and>
           live s' = (if v - 1 = 0 \<and> value_ptr r \<noteq> 0 then (live s)(value_ptr r := None)
                      else live s)"
proof (cases "v = 1")
  case True
  with assms(1) have "owned object r 1 s" by simp
  from release_owned_last [OF this] True show ?thesis
    by (simp add: finalization_def)
next
  case False
  from assms(1) have "counted object r v s" by (simp add: owned_def)
  from release_counted_keep [OF this False] False assms(2) show ?thesis
    by (simp add: unat_minus_one)
qed

text \<open>
  C3 at the record that \<^verbatim>\<open>init(obj, 8, destructor 7)\<close> leaves.
\<close>

theorem release_step_witness:
  "owned 1 \<lparr>value_ptr = 16, destructor = Some 7, count = 32\<rparr> (1 :: 64 word)
     \<lparr>objs = [1 \<mapsto> \<lparr>value_ptr = 16, destructor = Some 7, count = 32\<rparr>],
      live = [16 \<mapsto> 8, 32 \<mapsto> 8], mem = [32 \<mapsto> 1], host = [],
      trace = [Malloc 8 16, Malloc 8 32]\<rparr> \<and> (1 :: 64 word) \<noteq> 0 \<and>
   (\<exists>s'. azn_gc_object_release 1
       \<lparr>objs = [1 \<mapsto> \<lparr>value_ptr = 16, destructor = Some 7, count = 32\<rparr>],
        live = [16 \<mapsto> 8, 32 \<mapsto> 8], mem = [32 \<mapsto> 1 :: 64 word], host = [],
        trace = [Malloc 8 16, Malloc 8 32]\<rparr> = Inr s' \<and>
      mem s' 32 = Some 0 \<and>
      trace s' = [Malloc 8 16, Malloc 8 32, Call 7 16, Free 16] \<and>
      live s' = [32 \<mapsto> 8])"
proof -
  let ?r = "\<lparr>value_ptr = 16, destructor = Some 7, count = 32\<rparr>"
  let ?s = "\<lparr>objs = [1 \<mapsto> ?r], live = [16 \<mapsto> 8, 32 \<mapsto> 8],
     mem = [32 \<mapsto> 1 :: 64 word], host = [], trace = [Malloc 8 16, Malloc 8 32]\<rparr>"
  have o: "owned 1 ?r 1 ?s" by (simp add: owned_def counted_def)
  have v: "(1 :: 64 word) \<noteq> 0" by simp
  from release_step [OF o v] o show ?thesis
    by (auto simp: fun_upd_twist)
qed

subsection \<open>C4: the counter after init\<close>

text \<open>
  C4. Whatever the size and the destructor, present or not: when \<^verbatim>\<open>init\<close> returns, the
  record holds that destructor and its counter reads \<open>1\<close>, and one release, with no retain
  before it, returns, leaves the counter at \<open>0\<close>, calls the destructor on the payload if
  there is one and then frees the payload's block.
\<close>

theorem init_then_release:
  assumes "azn_gc_object_init object sz destr s = Inr s1"
  shows "\<exists>r. deref object s1 = Inr r \<and> destructor r = destr \<and>
           load (count r) s1 = Inr 1 \<and>
           (\<exists>s2. azn_gc_object_release object s1 = Inr s2 \<and>
              mem s2 (count r) = Some 0 \<and>
              trace s2 = trace s1 @
                (case destr of None \<Rightarrow> [] | Some f \<Rightarrow> [Call f (value_ptr r)]) @
                (if value_ptr r = 0 then [] else [Free (value_ptr r)]) \<and>
              live s2 = (if value_ptr r = 0 then live s1
                         else (live s1)(value_ptr r := None)))"
proof -
  from init_Inr [OF assms] obtain r where o: "owned object r 1 s1" and d: "destructor r = destr"
    by blast
  from o have "deref object s1 = Inr r" "load (count r) s1 = Inr 1"
    by (auto simp: owned_def counted_def deref_def load_def)
  with release_owned_last [OF o] d show ?thesis
    by (simp add: finalization_def)
qed

text \<open>
  C4 at \<^verbatim>\<open>init(obj, 16, destructor 7)\<close> and one release.
\<close>

theorem init_then_release_witness:
  "\<exists>s1. azn_gc_object_init 1 16 (Some 7) (boot [16, 32] :: 64 word state) = Inr s1 \<and>
     (\<exists>r. deref 1 s1 = Inr r \<and> destructor r = Some 7 \<and> load (count r) s1 = Inr 1 \<and>
        (\<exists>s2. azn_gc_object_release 1 s1 = Inr s2 \<and> mem s2 (count r) = Some 0 \<and>
           trace s2 = [Malloc 16 16, Malloc 8 32, Call 7 16, Free 16] \<and>
           live s2 = [32 \<mapsto> 8]))"
proof -
  let ?s1 = "\<lparr>objs = [1 \<mapsto> \<lparr>value_ptr = 16, destructor = Some 7, count = 32\<rparr>],
     live = [16 \<mapsto> 16, 32 \<mapsto> 8], mem = [32 \<mapsto> 1 :: 64 word], host = [],
     trace = [Malloc 16 16, Malloc 8 32]\<rparr>"
  have i: "azn_gc_object_init 1 16 (Some 7) (boot [16, 32] :: 64 word state) = Inr ?s1"
    by (simp add: azn_gc_object_init_def malloc_def store_def boot_def sizeof_size_t_def)
  from init_then_release [OF i] have
    "\<exists>r. deref 1 ?s1 = Inr r \<and> destructor r = Some 7 \<and> load (count r) ?s1 = Inr 1 \<and>
        (\<exists>s2. azn_gc_object_release 1 ?s1 = Inr s2 \<and> mem s2 (count r) = Some 0 \<and>
           trace s2 = [Malloc 16 16, Malloc 8 32, Call 7 16, Free 16] \<and>
           live s2 = [32 \<mapsto> 8])"
    by (auto simp: deref_def fun_upd_twist)
  with i show ?thesis by blast
qed

subsection \<open>C5: no finalization before the last release\<close>

text \<open>
  C5, with the bound that the counter forces. A record with \<open>N\<close> owners, one from
  \<^verbatim>\<open>init\<close> and \<open>N - 1\<close> from retains, where \<open>N\<close> is at most \<open>2 ^ LENGTH('w)\<close>: after fewer than
  \<open>N\<close> releases no destructor has been called and no block has been freed.
\<close>

theorem no_premature_finalization:
  fixes s :: "'w::len word state"
  assumes "azn_gc_object_init object sz destr s = Inr s1" and "N \<le> 2 ^ LENGTH('w)"
    and "0 < N" and "j < N"
  shows "\<exists>s2. run object (replicate (N - 1) Retain @ replicate j Release) s1 = Inr s2 \<and>
           trace s2 = trace s1 \<and> cleanups (trace s2) = cleanups (trace s1) \<and>
           live s2 = live s1"
proof -
  from init_Inr [OF assms(1)] obtain r where o: "owned object r 1 s1" by blast
  from assms have "N - 1 < 2 ^ LENGTH('w)" "j \<le> N - 1" by simp_all
  from run_retains_releases [OF o this] show ?thesis by simp
qed

text \<open>
  C5 at \<^verbatim>\<open>init(obj, 32, destructor 9)\<close>, three retains and three releases: four owners,
  nothing called and nothing freed.
\<close>

theorem no_premature_finalization_witness:
  "\<exists>s1. azn_gc_object_init 1 32 (Some 9) (boot [16, 48] :: 64 word state) = Inr s1 \<and>
     (4 :: nat) \<le> 2 ^ LENGTH(64) \<and> (0 :: nat) < 4 \<and> (3 :: nat) < 4 \<and>
     (\<exists>s2. run 1 [Retain, Retain, Retain, Release, Release, Release] s1 = Inr s2 \<and>
        trace s2 = [Malloc 32 16, Malloc 8 48] \<and> live s2 = [16 \<mapsto> 32, 48 \<mapsto> 8])"
proof -
  let ?s1 = "\<lparr>objs = [1 \<mapsto> \<lparr>value_ptr = 16, destructor = Some 9, count = 48\<rparr>],
     live = [16 \<mapsto> 32, 48 \<mapsto> 8], mem = [48 \<mapsto> 1 :: 64 word], host = [],
     trace = [Malloc 32 16, Malloc 8 48]\<rparr>"
  have i: "azn_gc_object_init 1 32 (Some 9) (boot [16, 48] :: 64 word state) = Inr ?s1"
    by (simp add: azn_gc_object_init_def malloc_def store_def boot_def sizeof_size_t_def)
  have h: "(4 :: nat) \<le> 2 ^ LENGTH(64)" "(0 :: nat) < 4" "(3 :: nat) < 4" by simp_all
  have e: "replicate (4 - 1) Retain @ replicate 3 Release =
      [Retain, Retain, Retain, Release, Release, Release]"
    by (simp add: numeral_3_eq_3)
  from no_premature_finalization [OF i h] obtain s2 where
    r: "run 1 (replicate (4 - 1) Retain @ replicate 3 Release) ?s1 = Inr s2"
    and same: "trace s2 = trace ?s1" "live s2 = live ?s1"
    by blast
  from r have "run 1 [Retain, Retain, Retain, Release, Release, Release] ?s1 = Inr s2"
    unfolding e .
  moreover from same have "trace s2 = [Malloc 32 16, Malloc 8 48]"
    "live s2 = [16 \<mapsto> 32, 48 \<mapsto> 8]"
    by simp_all
  ultimately show ?thesis using i h by blast
qed

text \<open>
  C5 as it is written, for every \<open>N\<close>, fails at \<open>N = 2 ^ 64 + 3\<close>: after \<open>2 ^ 64 + 2\<close> retains
  the counter reads \<open>3\<close>, and the third release calls the destructor and frees the payload
  while \<open>2 ^ 64\<close> owners remain.
\<close>

theorem premature_finalization_counterexample:
  "map_sum id trace
     (scenario 1 32 (Some 9) (replicate (2 ^ 64 + 2) Retain @ [Release, Release, Release])
        (boot [16, 48] :: 64 word state)) =
   Inr [Malloc 32 16, Malloc 8 48, Call 9 16, Free 16]"
proof -
  let ?r = "\<lparr>value_ptr = 16, destructor = Some 9, count = 48\<rparr>"
  let ?s1 = "\<lparr>objs = [1 \<mapsto> ?r], live = [16 \<mapsto> 32, 48 \<mapsto> 8], mem = [48 \<mapsto> 1], host = [],
     trace = [Malloc 32 16, Malloc 8 48]\<rparr> :: 64 word state"
  let ?s2 = "\<lparr>objs = [1 \<mapsto> ?r], live = [16 \<mapsto> 32, 48 \<mapsto> 8], mem = [48 \<mapsto> 3], host = [],
     trace = [Malloc 32 16, Malloc 8 48]\<rparr> :: 64 word state"
  have i: "azn_gc_object_init 1 32 (Some 9) (boot [16, 48] :: 64 word state) = Inr ?s1"
    by (simp add: azn_gc_object_init_def malloc_def store_def boot_def sizeof_size_t_def)
  have c: "counted 1 ?r 1 ?s1" by (simp add: counted_def)
  have w: "(of_nat (2 ^ 64 + 2) :: 64 word) = 2"
    unfolding of_nat_add two_pow_64 by simp
  have "run 1 (replicate (2 ^ 64 + 2) Retain) ?s1 = Inr ?s2"
    unfolding run_retains [OF c] w by simp
  then have "run 1 (replicate (2 ^ 64 + 2) Retain @ [Release, Release, Release]) ?s1 =
      run 1 [Release, Release, Release] ?s2"
    by (simp only: run_append sum.case)
  then show ?thesis
    unfolding scenario_def i sum.case
    by (simp add: azn_gc_object_release_def deref_def load_def store_def free_def call_def)
qed

subsection \<open>C6: one retain\<close>

text \<open>
  C6, with the bound that the counter forces. A retain on a record whose counter can be
  read returns and stores the counter plus one in \<^verbatim>\<open>size_t\<close> arithmetic: one more as a
  number when the counter is not the largest \<^verbatim>\<open>size_t\<close>, and \<open>0\<close> when it is. It changes
  nothing else: every other word of memory (the payload's contents among them), every
  record (so the payload pointer, the destructor and the counter's pointer), the live
  blocks and the allocator (nothing allocated, nothing freed) and the trace (no
  destructor called) are as before.
\<close>

theorem retain_frame:
  fixes s :: "'w::len word state"
  assumes "counted object r v s"
  shows "\<exists>s'. azn_gc_object_retain object s = Inr s' \<and>
           mem s' (count r) = Some (v + 1) \<and>
           (v \<noteq> - 1 \<longrightarrow> unat (v + 1) = unat v + 1) \<and>
           (v = - 1 \<longrightarrow> mem s' (count r) = Some 0) \<and>
           (\<forall>a. a \<noteq> count r \<longrightarrow> mem s' a = mem s a) \<and>
           objs s' = objs s \<and> live s' = live s \<and> host s' = host s \<and>
           trace s' = trace s"
proof -
  have "unat (v + 1) = unat v + 1" if "v \<noteq> - 1"
  proof -
    from that have "v + 1 \<noteq> 0" by (auto dest: max_word_wrap)
    then show ?thesis using unatSuc [of v] by (simp add: add.commute)
  qed
  then show ?thesis by (simp add: retain_counted [OF assms])
qed

text \<open>
  C6 at a record with counter \<open>1\<close> and a payload that holds \<open>5\<close>.
\<close>

theorem retain_frame_witness:
  "counted 1 \<lparr>value_ptr = 16, destructor = Some 7, count = 32\<rparr> (1 :: 64 word)
     \<lparr>objs = [1 \<mapsto> \<lparr>value_ptr = 16, destructor = Some 7, count = 32\<rparr>],
      live = [16 \<mapsto> 8, 32 \<mapsto> 8], mem = [32 \<mapsto> 1, 16 \<mapsto> 5], host = [48],
      trace = [Malloc 8 16, Malloc 8 32]\<rparr> \<and>
   (1 :: 64 word) \<noteq> - 1 \<and>
   (\<exists>s'. azn_gc_object_retain 1
       \<lparr>objs = [1 \<mapsto> \<lparr>value_ptr = 16, destructor = Some 7, count = 32\<rparr>],
        live = [16 \<mapsto> 8, 32 \<mapsto> 8], mem = [32 \<mapsto> 1 :: 64 word, 16 \<mapsto> 5], host = [48],
        trace = [Malloc 8 16, Malloc 8 32]\<rparr> = Inr s' \<and>
      mem s' 32 = Some 2 \<and> unat (1 + 1 :: 64 word) = unat (1 :: 64 word) + 1 \<and>
      mem s' 16 = Some 5 \<and>
      objs s' 1 = Some \<lparr>value_ptr = 16, destructor = Some 7, count = 32\<rparr> \<and>
      live s' = [16 \<mapsto> 8, 32 \<mapsto> 8] \<and> host s' = [48] \<and>
      trace s' = [Malloc 8 16, Malloc 8 32])"
proof -
  let ?r = "\<lparr>value_ptr = 16, destructor = Some 7, count = 32\<rparr>"
  let ?s = "\<lparr>objs = [1 \<mapsto> ?r], live = [16 \<mapsto> 8, 32 \<mapsto> 8],
     mem = [32 \<mapsto> 1 :: 64 word, 16 \<mapsto> 5], host = [48],
     trace = [Malloc 8 16, Malloc 8 32]\<rparr>"
  have c: "counted 1 ?r 1 ?s" by (simp add: counted_def)
  have v: "(1 :: 64 word) \<noteq> - 1" by simp
  from retain_frame [OF c] obtain s' where
    "azn_gc_object_retain 1 ?s = Inr s'" "mem s' (count ?r) = Some (1 + 1)"
    "(1 :: 64 word) \<noteq> - 1 \<longrightarrow> unat (1 + 1 :: 64 word) = unat (1 :: 64 word) + 1"
    "\<forall>a. a \<noteq> count ?r \<longrightarrow> mem s' a = mem ?s a" "objs s' = objs ?s" "live s' = live ?s"
    "host s' = host ?s" "trace s' = trace ?s"
    by blast
  with c v show ?thesis by simp
qed

text \<open>
  C6 as it is written, an increment by exactly one on every live record, fails at the
  largest \<^verbatim>\<open>size_t\<close>: \<^verbatim>\<open>init(obj, 8, destructor 7)\<close> and \<open>2 ^ 64 - 2\<close> retains leave a live
  record whose counter reads \<open>2 ^ 64 - 1\<close>, and one more retain leaves it at \<open>0\<close>.
\<close>

theorem retain_at_max_counterexample:
  "scenario 1 8 (Some 7) (replicate (2 ^ 64 - 2) Retain) (boot [16, 32] :: 64 word state) =
     Inr \<lparr>objs = [1 \<mapsto> \<lparr>value_ptr = 16, destructor = Some 7, count = 32\<rparr>],
          live = [16 \<mapsto> 8, 32 \<mapsto> 8], mem = [32 \<mapsto> 18446744073709551615], host = [],
          trace = [Malloc 8 16, Malloc 8 32]\<rparr> \<and>
   azn_gc_object_retain 1
     \<lparr>objs = [1 \<mapsto> \<lparr>value_ptr = 16, destructor = Some 7, count = 32\<rparr>],
      live = [16 \<mapsto> 8, 32 \<mapsto> 8], mem = [32 \<mapsto> 18446744073709551615 :: 64 word], host = [],
      trace = [Malloc 8 16, Malloc 8 32]\<rparr> =
     Inr \<lparr>objs = [1 \<mapsto> \<lparr>value_ptr = 16, destructor = Some 7, count = 32\<rparr>],
          live = [16 \<mapsto> 8, 32 \<mapsto> 8], mem = [32 \<mapsto> 0], host = [],
          trace = [Malloc 8 16, Malloc 8 32]\<rparr>"
proof -
  let ?r = "\<lparr>value_ptr = 16, destructor = Some 7, count = 32\<rparr>"
  let ?s1 = "\<lparr>objs = [1 \<mapsto> ?r], live = [16 \<mapsto> 8, 32 \<mapsto> 8], mem = [32 \<mapsto> 1], host = [],
     trace = [Malloc 8 16, Malloc 8 32]\<rparr> :: 64 word state"
  have i: "azn_gc_object_init 1 8 (Some 7) (boot [16, 32] :: 64 word state) = Inr ?s1"
    by (simp add: azn_gc_object_init_def malloc_def store_def boot_def sizeof_size_t_def)
  have c: "counted 1 ?r 1 ?s1" by (simp add: counted_def)
  have w: "(1 :: 64 word) + of_nat (2 ^ 64 - 2) = 18446744073709551615"
    by simp
  have a: "scenario 1 8 (Some 7) (replicate (2 ^ 64 - 2) Retain) (boot [16, 32] :: 64 word state)
      = Inr (?s1\<lparr>mem := (mem ?s1)(32 \<mapsto> 18446744073709551615)\<rparr>)"
    unfolding scenario_def i sum.case run_retains [OF c] w by simp
  have m: "(18446744073709551615 :: 64 word) = - 1" by simp
  have b: "azn_gc_object_retain 1 (?s1\<lparr>mem := [32 \<mapsto> 18446744073709551615]\<rparr>) =
      Inr (?s1\<lparr>mem := [32 \<mapsto> 0]\<rparr>)"
    unfolding m by (simp add: azn_gc_object_retain_def deref_def load_def store_def)
  from a b show ?thesis by simp
qed

subsection \<open>C7: the counter's block is never freed\<close>

text \<open>
  C7. After \<^verbatim>\<open>init\<close> and any sequence of retains and releases that returns, the last
  release of the record among them: the block of the counter is still live, and no event
  since the start has handed it back to the allocator.
\<close>

theorem counter_storage_never_freed:
  assumes "scenario object sz destr ops s = Inr s'"
  shows "\<exists>r es. objs s' object = Some r \<and> live s' (count r) \<noteq> None \<and>
           trace s' = trace s @ es \<and> Free (count r) \<notin> set es"
proof -
  from assms obtain s1 where i: "azn_gc_object_init object sz destr s = Inr s1"
    and rest: "run object ops s1 = Inr s'"
    by (auto simp: scenario_def split: sum.splits)
  from init_Inr [OF i] obtain r es1 where o: "owned object r 1 s1"
    and t1: "trace s1 = trace s @ es1" "Free (count r) \<notin> set es1"
    by blast
  from o have r: "objs s1 object = Some r" "value_ptr r \<noteq> count r" "live s1 (count r) \<noteq> None"
    by (simp_all add: owned_def counted_def)
  from run_keeps_counter [OF rest r(1,2)] obtain es2 where
    "objs s' object = Some r" "live s' (count r) = live s1 (count r)"
    "trace s' = trace s1 @ es2" "Free (count r) \<notin> set es2"
    by blast
  with r t1 show ?thesis
    by (intro exI [of _ r] exI [of _ "es1 @ es2"]) simp
qed

text \<open>
  C7 at \<^verbatim>\<open>init(obj, 8, destructor 7)\<close>, retain, release, release: the payload at \<open>16\<close> is
  freed, the counter at \<open>32\<close> is not.
\<close>

theorem counter_storage_never_freed_witness:
  "\<exists>s' r. scenario 1 8 (Some 7) [Retain, Release, Release] (boot [16, 32] :: 64 word state) =
       Inr s' \<and>
     objs s' 1 = Some r \<and> count r = 32 \<and> live s' 32 = Some 8 \<and> live s' 16 = None \<and>
     trace s' = [Malloc 8 16, Malloc 8 32, Call 7 16, Free 16]"
proof -
  let ?r = "\<lparr>value_ptr = 16, destructor = Some 7, count = 32\<rparr>"
  let ?s' = "\<lparr>objs = [1 \<mapsto> ?r], live = [32 \<mapsto> 8], mem = [32 \<mapsto> 0 :: 64 word], host = [],
     trace = [Malloc 8 16, Malloc 8 32, Call 7 16, Free 16]\<rparr>"
  have e: "scenario 1 8 (Some 7) [Retain, Release, Release] (boot [16, 32] :: 64 word state) =
     Inr ?s'"
    by (simp add: eval_defs fun_upd_twist)
  from counter_storage_never_freed [OF e] obtain r es where
    "objs ?s' 1 = Some r" "live ?s' (count r) \<noteq> None" "Free (count r) \<notin> set es"
    by blast
  then have "objs ?s' 1 = Some ?r \<and> count ?r = 32 \<and> live ?s' 32 = Some 8 \<and> live ?s' 16 = None \<and>
     trace ?s' = [Malloc 8 16, Malloc 8 32, Call 7 16, Free 16]"
    by (simp split: if_splits)
  with e show ?thesis by blast
qed

subsection \<open>C8: size zero and no destructor\<close>

text \<open>
  C8. \<^verbatim>\<open>init(obj, 0, nullptr)\<close> and one release, on a host that has a block for the
  counter. Let \<open>p\<close> be the host's answer to the request for zero bytes, the null pointer
  or a block. Then \<^verbatim>\<open>init\<close> returns: the request for zero bytes has been made and its
  answer taken as the payload (a live block of size \<open>0\<close> when it is a block), the record
  has no destructor, and the counter reads \<open>1\<close>. The release returns as well: it leaves the
  counter at \<open>0\<close>, calls no destructor, and hands the payload's block back to the allocator
  (nothing, when \<open>p\<close> is the null pointer). No fault on the way.
\<close>

theorem zero_size_no_destructor:
  fixes s :: "'w::len word state"
  assumes "object \<noteq> 0" and "host s = a # c # rest" and "c \<noteq> 0" and "live s c = None"
    and "c \<noteq> a" and "p = (if a = 0 \<or> live s a \<noteq> None then 0 else a)"
  shows "\<exists>s1 s2. azn_gc_object_init object 0 None s = Inr s1 \<and>
           azn_gc_object_release object s1 = Inr s2 \<and>
           scenario object 0 None [Release] s = Inr s2 \<and>
           objs s1 object = Some \<lparr>value_ptr = p, destructor = None, count = c\<rparr> \<and>
           load c s1 = Inr 1 \<and>
           (if p = 0 then live s1 = (live s)(c \<mapsto> sizeof_size_t)
            else live s1 = (live s)(p \<mapsto> 0, c \<mapsto> sizeof_size_t)) \<and>
           trace s1 = trace s @ (if p = 0 then [] else [Malloc 0 p]) @
             [Malloc (unat (sizeof_size_t :: 'w word)) c] \<and>
           mem s2 c = Some 0 \<and>
           (if p = 0 then live s2 = live s1 else live s2 = (live s1)(p := None)) \<and>
           trace s2 = trace s1 @ (if p = 0 then [] else [Free p]) \<and>
           cleanups (trace s2) = cleanups (trace s)"
proof -
  let ?r = "\<lparr>value_ptr = p, destructor = None, count = c\<rparr>"
  let ?l1 = "if p = 0 then (live s)(c \<mapsto> (sizeof_size_t :: 'w word))
     else (live s)(p \<mapsto> 0, c \<mapsto> sizeof_size_t)"
  let ?t1 = "trace s @ (if p = 0 then [] else [Malloc 0 p]) @
     [Malloc (unat (sizeof_size_t :: 'w word)) c]"
  let ?s1 = "\<lparr>objs = (objs s)(object \<mapsto> ?r), live = ?l1, mem = (mem s)(c \<mapsto> 1),
     host = rest, trace = ?t1\<rparr>"
  have i: "azn_gc_object_init object 0 None s = Inr ?s1"
    using assms by (auto simp: azn_gc_object_init_def malloc_def store_def)
  have o: "owned object ?r 1 ?s1"
    using assms by (auto simp: owned_def counted_def)
  let ?s2 = "?s1\<lparr>mem := (mem ?s1)(count ?r \<mapsto> 0),
     live := (if value_ptr ?r = 0 then live ?s1 else (live ?s1)(value_ptr ?r := None)),
     trace := trace ?s1 @ finalization ?r\<rparr>"
  have r: "azn_gc_object_release object ?s1 = Inr ?s2" by (rule release_owned_last [OF o])
  have l: "load c ?s1 = Inr 1" using assms by (auto simp: load_def)
  have t: "cleanups (trace ?s2) = cleanups (trace s)"
    by (simp add: cleanups_def finalization_def)
  show ?thesis
    apply (rule exI [of _ ?s1], rule exI [of _ ?s2])
    using i r l t by (simp add: scenario_def finalization_def)
qed

text \<open>
  C8 on a host that answers the request for zero bytes with the block at \<open>16\<close>, and on one
  that answers it with the null pointer.
\<close>

theorem zero_size_no_destructor_witness:
  "(1 :: addr) \<noteq> 0 \<and> host (boot [16, 32] :: 64 word state) = 16 # 32 # [] \<and>
   (32 :: addr) \<noteq> 0 \<and> live (boot [16, 32] :: 64 word state) 32 = None \<and> (32 :: addr) \<noteq> 16 \<and>
   (16 :: addr) = (if (16 :: addr) = 0 \<or> live (boot [16, 32] :: 64 word state) 16 \<noteq> None
                   then 0 else 16) \<and>
   (\<exists>s1 s2. azn_gc_object_init 1 0 None (boot [16, 32] :: 64 word state) = Inr s1 \<and>
      azn_gc_object_release 1 s1 = Inr s2 \<and>
      scenario 1 0 None [Release] (boot [16, 32] :: 64 word state) = Inr s2 \<and>
      objs s1 1 = Some \<lparr>value_ptr = 16, destructor = None, count = 32\<rparr> \<and>
      load 32 s1 = Inr 1 \<and> live s1 = [16 \<mapsto> 0, 32 \<mapsto> 8] \<and>
      trace s1 = [Malloc 0 16, Malloc 8 32] \<and>
      mem s2 32 = Some 0 \<and> live s2 = [32 \<mapsto> 8] \<and>
      trace s2 = [Malloc 0 16, Malloc 8 32, Free 16] \<and> cleanups (trace s2) = 0) \<and>
   (0 :: addr) = (if (0 :: addr) = 0 \<or> live (boot [0, 32] :: 64 word state) 0 \<noteq> None
                  then 0 else 0) \<and>
   (\<exists>s1 s2. azn_gc_object_init 1 0 None (boot [0, 32] :: 64 word state) = Inr s1 \<and>
      azn_gc_object_release 1 s1 = Inr s2 \<and>
      objs s1 1 = Some \<lparr>value_ptr = 0, destructor = None, count = 32\<rparr> \<and>
      load 32 s1 = Inr 1 \<and> trace s1 = [Malloc 8 32] \<and>
      mem s2 32 = Some 0 \<and> live s2 = [32 \<mapsto> 8] \<and>
      trace s2 = [Malloc 8 32] \<and> cleanups (trace s2) = 0)"
proof -
  let ?s = "boot [16, 32] :: 64 word state"
  let ?n = "boot [0, 32] :: 64 word state"
  have h: "(1 :: addr) \<noteq> 0" "host ?s = 16 # 32 # []" "(32 :: addr) \<noteq> 0" "live ?s 32 = None"
    "(32 :: addr) \<noteq> 16"
    "(16 :: addr) = (if (16 :: addr) = 0 \<or> live ?s 16 \<noteq> None then 0 else 16)"
    by (simp_all add: boot_def)
  have g: "(1 :: addr) \<noteq> 0" "host ?n = 0 # 32 # []" "(32 :: addr) \<noteq> 0" "live ?n 32 = None"
    "(32 :: addr) \<noteq> 0"
    "(0 :: addr) = (if (0 :: addr) = 0 \<or> live ?n 0 \<noteq> None then 0 else 0)"
    by (simp_all add: boot_def)
  have z: "cleanups (trace ?s) = 0" "cleanups (trace ?n) = 0" "trace ?s = []" "trace ?n = []"
    "live ?s = Map.empty" "live ?n = Map.empty"
    by (simp_all add: boot_def cleanups_def)
  have e: "[(16 :: addr) \<mapsto> (0 :: 64 word), 32 \<mapsto> 8](16 := None) = [32 \<mapsto> 8]"
    by (rule ext) simp
  from zero_size_no_destructor [OF h] obtain s1 s2 where
    a: "azn_gc_object_init 1 0 None ?s = Inr s1" "azn_gc_object_release 1 s1 = Inr s2"
    "scenario 1 0 None [Release] ?s = Inr s2"
    "objs s1 1 = Some \<lparr>value_ptr = 16, destructor = None, count = 32\<rparr>"
    "load 32 s1 = Inr 1" "live s1 = [16 \<mapsto> 0, 32 \<mapsto> 8]"
    "trace s1 = [Malloc 0 16, Malloc 8 32]" "mem s2 32 = Some 0" "live s2 = [32 \<mapsto> 8]"
    "trace s2 = [Malloc 0 16, Malloc 8 32, Free 16]" "cleanups (trace s2) = 0"
    by (auto simp: z e sizeof_size_t_def cleanups_def)
  from zero_size_no_destructor [OF g] obtain t1 t2 where
    b: "azn_gc_object_init 1 0 None ?n = Inr t1" "azn_gc_object_release 1 t1 = Inr t2"
    "objs t1 1 = Some \<lparr>value_ptr = 0, destructor = None, count = 32\<rparr>"
    "load 32 t1 = Inr 1" "trace t1 = [Malloc 8 32]" "mem t2 32 = Some 0" "live t2 = [32 \<mapsto> 8]"
    "trace t2 = [Malloc 8 32]" "cleanups (trace t2) = 0"
    by (auto simp: z sizeof_size_t_def cleanups_def)
  from h g a b show ?thesis by blast
qed

subsection \<open>C9: allocation failure in init\<close>

text \<open>
  C9, as the code has it. \<^verbatim>\<open>init\<close> tests no result of \<^verbatim>\<open>malloc\<close>. When the payload's
  allocation fails and the counter's does not, \<^verbatim>\<open>init\<close> returns: the record holds the
  null pointer as its payload, the destructor, and a counter that reads \<open>1\<close>. When the
  counter's allocation fails, the last statement writes through the null pointer, and
  \<^verbatim>\<open>init\<close> does not complete.
\<close>

theorem init_allocation_failure:
  fixes s :: "'w::len word state"
  assumes "object \<noteq> 0"
  shows "(fst (malloc sz s) = 0 \<and> fst (malloc sizeof_size_t (snd (malloc sz s))) \<noteq> 0 \<longrightarrow>
            (\<exists>s1 c. azn_gc_object_init object sz destr s = Inr s1 \<and> c \<noteq> 0 \<and>
               objs s1 object = Some \<lparr>value_ptr = 0, destructor = destr, count = c\<rparr> \<and>
               mem s1 c = Some 1)) \<and>
         (fst (malloc sizeof_size_t (snd (malloc sz s))) = 0 \<longrightarrow>
            azn_gc_object_init object sz destr s = Inl NullDeref)"
proof -
  obtain p s' where m1: "malloc sz s = (p, s')" by (cases "malloc sz s")
  obtain c s'' where m2: "malloc (sizeof_size_t :: 'w word) s' = (c, s'')"
    by (cases "malloc (sizeof_size_t :: 'w word) s'")
  have "live s'' c \<noteq> None" if "c \<noteq> 0"
    using malloc_result [OF m2] that by simp
  with assms m1 m2 show ?thesis
    by (auto simp: azn_gc_object_init_def store_def)
qed

text \<open>
  C9 on a host that fails the payload's allocation, and on one that fails the counter's.
\<close>

theorem init_allocation_failure_witness:
  "(1 :: addr) \<noteq> 0 \<and>
   fst (malloc 8 (boot [0, 32] :: 64 word state)) = 0 \<and>
   fst (malloc sizeof_size_t (snd (malloc 8 (boot [0, 32] :: 64 word state)))) = 32 \<and>
   (\<exists>s1. azn_gc_object_init 1 8 (Some 7) (boot [0, 32] :: 64 word state) = Inr s1 \<and>
      objs s1 1 = Some \<lparr>value_ptr = 0, destructor = Some 7, count = 32\<rparr> \<and>
      mem s1 32 = Some 1) \<and>
   fst (malloc sizeof_size_t (snd (malloc 8 (boot [16] :: 64 word state)))) = 0 \<and>
   azn_gc_object_init 1 8 (Some 7) (boot [16] :: 64 word state) = Inl NullDeref"
proof -
  have o: "(1 :: addr) \<noteq> 0" by simp
  have a: "fst (malloc 8 (boot [0, 32] :: 64 word state)) = 0"
    "fst (malloc sizeof_size_t (snd (malloc 8 (boot [0, 32] :: 64 word state)))) = 32"
    "fst (malloc sizeof_size_t (snd (malloc 8 (boot [16] :: 64 word state)))) = 0"
    by (simp_all add: malloc_def boot_def)
  from init_allocation_failure [OF o, of 8 "boot [0, 32] :: 64 word state" "Some 7"] a
  obtain s1 c where "azn_gc_object_init 1 8 (Some 7) (boot [0, 32] :: 64 word state) = Inr s1"
    "objs s1 1 = Some \<lparr>value_ptr = 0, destructor = Some 7, count = c\<rparr>" "mem s1 c = Some 1"
    by auto
  moreover from this have "c = 32"
    by (auto simp: azn_gc_object_init_def malloc_def store_def boot_def)
  moreover from init_allocation_failure [OF o, of 8 "boot [16] :: 64 word state" "Some 7"] a
  have "azn_gc_object_init 1 8 (Some 7) (boot [16] :: 64 word state) = Inl NullDeref"
    by simp
  ultimately show ?thesis using a by auto
qed

text \<open>
  C9 as it is written, with \<^verbatim>\<open>init\<close> completing its remaining steps after either failure,
  fails when the counter's allocation fails: \<^verbatim>\<open>*(object->count) = 1\<close> has no block to
  write to.
\<close>

theorem init_counter_allocation_fails_counterexample:
  "azn_gc_object_init 1 8 (Some 7) (boot [16, 0] :: 64 word state) = Inl NullDeref"
  by (simp add: azn_gc_object_init_def malloc_def store_def boot_def)

subsection \<open>C10: release at zero\<close>

text \<open>
  C10. A release on a record whose counter reads \<open>0\<close> returns and leaves the counter at
  \<open>- 1\<close>, the largest \<^verbatim>\<open>size_t\<close>, \<open>2 ^ LENGTH('w) - 1\<close>. That is not \<open>0\<close>: nothing is called and
  nothing is freed, and the same holds for any number of further releases below
  \<open>2 ^ LENGTH('w) - 1\<close>.
\<close>

theorem release_at_zero_wraps:
  fixes s :: "'w::len word state"
  assumes "counted object r 0 s"
  shows "\<exists>s'. azn_gc_object_release object s = Inr s' \<and>
           mem s' (count r) = Some (- 1) \<and> unat (- 1 :: 'w word) = 2 ^ LENGTH('w) - 1 \<and>
           trace s' = trace s \<and> live s' = live s \<and>
           (\<forall>n<2 ^ LENGTH('w) - 1. \<exists>s''. run object (replicate n Release) s' = Inr s'' \<and>
               trace s'' = trace s \<and> live s'' = live s)"
proof -
  let ?s = "s\<lparr>mem := (mem s)(count r \<mapsto> - 1)\<rparr>"
  have r: "azn_gc_object_release object s = Inr ?s"
    using release_counted_keep [OF assms] by simp
  have c: "counted object r (- 1) ?s" using assms by (rule counted_mem_upd)
  have "\<exists>s''. run object (replicate n Release) ?s = Inr s'' \<and>
               trace s'' = trace s \<and> live s'' = live s" if "n < 2 ^ LENGTH('w) - 1" for n
  proof -
    have "\<forall>j<n. (- 1 :: 'w word) - of_nat j \<noteq> 1"
    proof (intro allI impI)
      fix j assume "j < n"
      with that have "j < 2 ^ LENGTH('w) - 2" by simp
      then show "(- 1 :: 'w word) - of_nat j \<noteq> 1" by (rule release_wrap_keep)
    qed
    from run_releases [OF c this] show ?thesis by simp
  qed
  with r show ?thesis by (simp add: unat_max)
qed

text \<open>
  C10 at a finalized record, and a thousand releases more.
\<close>

theorem release_at_zero_wraps_witness:
  "counted 1 \<lparr>value_ptr = 16, destructor = Some 7, count = 32\<rparr> (0 :: 64 word)
     \<lparr>objs = [1 \<mapsto> \<lparr>value_ptr = 16, destructor = Some 7, count = 32\<rparr>],
      live = [32 \<mapsto> 8], mem = [32 \<mapsto> 0], host = [],
      trace = [Malloc 8 16, Malloc 8 32, Call 7 16, Free 16]\<rparr> \<and>
   (\<exists>s'. azn_gc_object_release 1
       \<lparr>objs = [1 \<mapsto> \<lparr>value_ptr = 16, destructor = Some 7, count = 32\<rparr>],
        live = [32 \<mapsto> 8], mem = [32 \<mapsto> 0 :: 64 word], host = [],
        trace = [Malloc 8 16, Malloc 8 32, Call 7 16, Free 16]\<rparr> = Inr s' \<and>
      mem s' 32 = Some 18446744073709551615 \<and>
      trace s' = [Malloc 8 16, Malloc 8 32, Call 7 16, Free 16] \<and>
      live s' = [32 \<mapsto> 8] \<and>
      (\<exists>s''. run 1 (replicate 1000 Release) s' = Inr s'' \<and>
         trace s'' = [Malloc 8 16, Malloc 8 32, Call 7 16, Free 16] \<and>
         live s'' = [32 \<mapsto> 8]))"
proof -
  let ?r = "\<lparr>value_ptr = 16, destructor = Some 7, count = 32\<rparr>"
  let ?s = "\<lparr>objs = [1 \<mapsto> ?r], live = [32 \<mapsto> 8], mem = [32 \<mapsto> 0 :: 64 word], host = [],
     trace = [Malloc 8 16, Malloc 8 32, Call 7 16, Free 16]\<rparr>"
  have c: "counted 1 ?r 0 ?s" by (simp add: counted_def)
  have n: "(1000 :: nat) < 2 ^ LENGTH(64) - 1" by simp
  from release_at_zero_wraps [OF c] obtain s' where
    "azn_gc_object_release 1 ?s = Inr s'" "mem s' (count ?r) = Some (- 1)"
    "trace s' = trace ?s" "live s' = live ?s"
    "\<forall>n<2 ^ LENGTH(64) - 1. \<exists>s''. run 1 (replicate n Release) s' = Inr s'' \<and>
               trace s'' = trace ?s \<and> live s'' = live ?s"
    by blast
  with n c show ?thesis by auto
qed

end
